theory Spec2Isabelle
  imports Main "HOL-Library.Monad_Syntax"
begin

section \<open>Python lists and the memoization table\<close>

text \<open>
  The strings of \<^verbatim>\<open>edit_dist_utils.py\<close> are sequences of symbols; the model is
  polymorphic in the symbol type, so a Python \<^verbatim>\<open>str\<close> is an \<open>'a list\<close> and the
  examples use \<open>string\<close>. Python integers are \<open>int\<close>. An index expression
  \<^verbatim>\<open>xs[k]\<close> accepts \<open>- len xs \<le> k < len xs\<close>, a negative \<open>k\<close> counting from the end,
  and raises IndexError otherwise. The other exception the two modules can raise is
  RecursionError, when the recursive \<^verbatim>\<open>get_transformation\<close> nests deeper than the
  interpreter's recursion limit allows. A computation that raises is \<open>None\<close>; the lemmas
  on well-formed tables show that no index of the two modules is ever out of range, so
  that \<open>None\<close> from the functions of the module is the RecursionError.
\<close>

definition py_index :: "'a list \<Rightarrow> int \<Rightarrow> 'a option" where
  "py_index xs k =
     (let n = int (length xs) in
      if 0 \<le> k \<and> k < n then Some (xs ! nat k)
      else if k < 0 \<and> - n \<le> k then Some (xs ! nat (n + k))
      else None)"

definition py_store :: "'a list \<Rightarrow> int \<Rightarrow> 'a \<Rightarrow> 'a list option" where
  "py_store xs k v =
     (let n = int (length xs) in
      if 0 \<le> k \<and> k < n then Some (xs[nat k := v])
      else if k < 0 \<and> - n \<le> k then Some (xs[nat (n + k) := v])
      else None)"

type_synonym table = "int list list"

text \<open>\<^verbatim>\<open>memo_table[i][j]\<close> as an expression and as an assignment target. The rows of the
  table are distinct list objects (they come from a list comprehension), so an
  assignment changes one row only.\<close>

definition table_get :: "table \<Rightarrow> int \<Rightarrow> int \<Rightarrow> int option" where
  "table_get t i j = do { row \<leftarrow> py_index t i; py_index row j }"

definition table_set :: "table \<Rightarrow> int \<Rightarrow> int \<Rightarrow> int \<Rightarrow> table option" where
  "table_set t i j v = do { row \<leftarrow> py_index t i; row' \<leftarrow> py_store row j v; py_store t i row' }"

text \<open>A \<^verbatim>\<open>for\<close> loop over a range: the body runs on each index in turn and an exception
  in the body leaves the loop.\<close>

fun for_range :: "int list \<Rightarrow> (int \<Rightarrow> 's \<Rightarrow> 's option) \<Rightarrow> 's \<Rightarrow> 's option" where
  "for_range [] body s = Some s"
| "for_range (k # ks) body s = (case body k s of None \<Rightarrow> None | Some s' \<Rightarrow> for_range ks body s')"

section \<open>\<^verbatim>\<open>get_edit_dist_table\<close>\<close>

text \<open>The test \<^verbatim>\<open>a[row_index - 1] == b[col_index - 2] and a[row_index - 2] == b[col_index - 1]\<close>,
  which both the table construction and the backtrace evaluate, with the short-circuit
  of \<^verbatim>\<open>and\<close>.\<close>

definition adjacent_swapped :: "'a list \<Rightarrow> 'a list \<Rightarrow> int \<Rightarrow> int \<Rightarrow> bool option" where
  "adjacent_swapped a b row_index col_index = do {
     a1 \<leftarrow> py_index a (row_index - 1);
     b2 \<leftarrow> py_index b (col_index - 2);
     if a1 = b2 then do {
       a2 \<leftarrow> py_index a (row_index - 2);
       b1 \<leftarrow> py_index b (col_index - 1);
       Some (a2 = b1)
     } else Some False
   }"

text \<open>Lines 50 to 56: the value of the transposition candidate. The guard is the source's
  \<^verbatim>\<open>row_index + col_index > 2\<close>.\<close>

definition transpose_candidate :: "'a list \<Rightarrow> 'a list \<Rightarrow> int \<Rightarrow> int \<Rightarrow> table \<Rightarrow> int option" where
  "transpose_candidate row_str col_str row_index col_index memo_table =
     (let rows = int (length row_str); cols = int (length col_str) in
      if row_index + col_index > 2 then do {
        swapped \<leftarrow> adjacent_swapped row_str col_str row_index col_index;
        if swapped then do {
          t \<leftarrow> table_get memo_table (row_index - 2) (col_index - 2);
          Some (t + 1)
        } else Some (rows + cols + 1)
      } else Some (rows + cols + 1))"

text \<open>The body of the inner loop (lines 42 to 58): the four candidate values of the cell
  and the assignment of their minimum.\<close>

definition fill_cell :: "'a list \<Rightarrow> 'a list \<Rightarrow> int \<Rightarrow> int \<Rightarrow> table \<Rightarrow> table option" where
  "fill_cell row_str col_str row_index col_index memo_table = do {
     d \<leftarrow> table_get memo_table (row_index - 1) col_index;
     let delete_value = d + 1;
     i \<leftarrow> table_get memo_table row_index (col_index - 1);
     let insert_value = i + 1;
     r \<leftarrow> table_get memo_table (row_index - 1) (col_index - 1);
     a \<leftarrow> py_index row_str (row_index - 1);
     b \<leftarrow> py_index col_str (col_index - 1);
     let replace_value = (if a \<noteq> b then r + 1 else r);
     transpose_value \<leftarrow> transpose_candidate row_str col_str row_index col_index memo_table;
     table_set memo_table row_index col_index
       (min delete_value (min insert_value (min replace_value transpose_value)))
   }"

definition get_edit_dist_table :: "'a list \<Rightarrow> 'a list \<Rightarrow> table option" where
  "get_edit_dist_table row_str col_str = do {
     let rows = int (length row_str);
     let cols = int (length col_str);
     let memo_table = replicate (nat (rows + 1)) (replicate (nat (cols + 1)) (0::int));
     memo_table \<leftarrow> for_range [1..cols] (\<lambda>col_index t. table_set t 0 col_index col_index) memo_table;
     memo_table \<leftarrow> for_range [1..rows] (\<lambda>row_index t. table_set t row_index 0 row_index) memo_table;
     for_range [1..rows]
       (\<lambda>row_index t. for_range [1..cols] (\<lambda>col_index t'. fill_cell row_str col_str row_index col_index t') t)
       memo_table
   }"

section \<open>\<^verbatim>\<open>edit_distance\<close>\<close>

definition edit_distance :: "'a list \<Rightarrow> 'a list \<Rightarrow> int option" where
  "edit_distance s0 s1 =
     (if s0 = s1 then Some 0
      else do {
        t \<leftarrow> get_edit_dist_table s0 s1;
        table_get t (int (length s0)) (int (length s1))
      })"

section \<open>The backtrace\<close>

text \<open>
  The nested \<^verbatim>\<open>get_transformation\<close> appends to \<^verbatim>\<open>transform_list\<close> in place and returns
  either the reversed list or \<^verbatim>\<open>[]\<close>. The model returns the pair of the returned value
  and the final contents of the list object, since the caller reads the latter. The
  condition of the second \<^verbatim>\<open>if\<close> (lines 198 to 200) is computed into \<open>transposed\<close>: the
  comparison, the two bounds and then the character test, in the source's order.

  Every step of the backtrace is a nested call (lines 196, 202, 206 and 210), one more
  frame on the interpreter's stack. The first argument \<open>frames\<close> is the number of nested
  activations of \<^verbatim>\<open>get_transformation\<close> that the recursion limit still leaves room for:
  the limit (\<^verbatim>\<open>sys.getrecursionlimit()\<close>, 1000 unless changed) less the frames in use
  when the call is made. A call with no frame left raises RecursionError. The number is
  a parameter of the model, since the depth of the caller's stack is not in the source.
\<close>

fun get_transformation ::
  "nat \<Rightarrow> 'a list \<Rightarrow> 'a list \<Rightarrow> int \<Rightarrow> int \<Rightarrow> string list \<Rightarrow> table \<Rightarrow> (string list \<times> string list) option" where
  "get_transformation 0 s0 s1 row_index col_index transform_list memo_table = None"
| "get_transformation (Suc frames) s0 s1 row_index col_index transform_list memo_table =
     (if row_index = 0 \<and> col_index = 0 then Some (rev transform_list, transform_list)
      else do {
        current_value \<leftarrow> table_get memo_table row_index col_index;
        delete_value \<leftarrow> table_get memo_table (row_index - 1) col_index;
        insert_value \<leftarrow> table_get memo_table row_index (col_index - 1);
        r \<leftarrow> table_get memo_table (row_index - 1) (col_index - 1);
        a \<leftarrow> py_index s0 (row_index - 1);
        b \<leftarrow> py_index s1 (col_index - 1);
        let replace_value = (if a \<noteq> b then r + 1 else r);
        transpose_value \<leftarrow> table_get memo_table (row_index - 2) (col_index - 2);
        if replace_value \<le> current_value \<and> (row_index > 0 \<and> col_index > 0) then do {
          a' \<leftarrow> py_index s0 (row_index - 1);
          b' \<leftarrow> py_index s1 (col_index - 1);
          get_transformation frames s0 s1 (row_index - 1) (col_index - 1)
            (if a' \<noteq> b' then transform_list @ [''R''] else transform_list) memo_table
        } else do {
          transposed \<leftarrow>
            (if transpose_value \<le> current_value \<and> (row_index > 1 \<and> col_index > 1)
             then adjacent_swapped s0 s1 row_index col_index else Some False);
          if transposed then
            get_transformation frames s0 s1 (row_index - 2) (col_index - 2) (transform_list @ [''T'']) memo_table
          else if insert_value \<le> current_value \<and> col_index > 0 then
            get_transformation frames s0 s1 row_index (col_index - 1) (transform_list @ [''I'']) memo_table
          else if delete_value \<le> current_value \<and> row_index > 0 then
            get_transformation frames s0 s1 (row_index - 1) col_index (transform_list @ [''D'']) memo_table
          else Some ([], transform_list)
        }
      })"

text \<open>The two \<^verbatim>\<open>while\<close> loops of lines 217 to 223.\<close>

function delete_loop :: "int \<Rightarrow> string list \<Rightarrow> string list" where
  "delete_loop row_index complete_transform_list =
     (if row_index > 0 then delete_loop (row_index - 1) (complete_transform_list @ [''D''])
      else complete_transform_list)"
  by pat_completeness auto
termination
  by (relation "measure (\<lambda>(row_index, complete_transform_list). nat row_index)") auto

function insert_loop :: "int \<Rightarrow> string list \<Rightarrow> string list" where
  "insert_loop col_index complete_transform_list =
     (if col_index > 0 then insert_loop (col_index - 1) (complete_transform_list @ [''I''])
      else complete_transform_list)"
  by pat_completeness auto
termination
  by (relation "measure (\<lambda>(col_index, complete_transform_list). nat col_index)") auto

text \<open>The value of the root call is dropped: the function returns the list object it
  passed down, in the order the symbols were appended. In this function and its callers
  \<open>frames\<close> is the room the recursion limit leaves when the root call of line 225 is made;
  the branches for an empty string make no such call.\<close>

definition transformation_list_with_table ::
  "nat \<Rightarrow> 'a list \<Rightarrow> 'a list \<Rightarrow> string list \<Rightarrow> table \<Rightarrow> string list option" where
  "transformation_list_with_table frames s0 s1 complete_transform_list table =
     (let row_index = int (length s0); col_index = int (length s1); memo_table = table in
      if col_index \<le> 0 then Some (delete_loop row_index complete_transform_list)
      else if row_index \<le> 0 then Some (insert_loop col_index complete_transform_list)
      else do {
        (returned, final_list) \<leftarrow>
          get_transformation frames s0 s1 row_index col_index complete_transform_list memo_table;
        Some final_list
      })"

text \<open>Line 129 builds the table again from the two strings and does not read its
  \<^verbatim>\<open>table\<close> parameter.\<close>

definition get_transformation_list_with_table ::
  "nat \<Rightarrow> 'a list \<Rightarrow> 'a list \<Rightarrow> table \<Rightarrow> string list option" where
  "get_transformation_list_with_table frames s0 s1 table = do {
     t \<leftarrow> get_edit_dist_table s0 s1;
     transformation_list_with_table frames s0 s1 [] t
   }"

definition get_transformation_list :: "nat \<Rightarrow> 'a list \<Rightarrow> 'a list \<Rightarrow> string list option" where
  "get_transformation_list frames s0 s1 = do {
     t \<leftarrow> get_edit_dist_table s0 s1;
     get_transformation_list_with_table frames s0 s1 t
   }"

section \<open>\<^verbatim>\<open>DistlePlayer.get_feedback\<close>\<close>



section \<open>The recurrence and the backtrace as the specification words them\<close>

text \<open>Entry \<open>(i, j)\<close> of a table, for indices inside it.\<close>

definition cell :: "table \<Rightarrow> nat \<Rightarrow> nat \<Rightarrow> int" where
  "cell t i j = t ! i ! j"

text \<open>The value the specification's recurrence gives cell \<open>(i, j)\<close>, \<open>1 \<le> i\<close>, \<open>1 \<le> j\<close>, from
  its neighbours in \<open>t\<close>: the transposition term enters the minimum only when \<open>i > 1\<close>,
  \<open>j > 1\<close> and the two adjacent symbols are swapped.\<close>

definition spec_recurrence :: "'a list \<Rightarrow> 'a list \<Rightarrow> table \<Rightarrow> nat \<Rightarrow> nat \<Rightarrow> int" where
  "spec_recurrence rowSeq colSeq t i j =
     (let delete = cell t (i - 1) j + 1;
          insert = cell t i (j - 1) + 1;
          replace = cell t (i - 1) (j - 1) + (if rowSeq ! (i - 1) = colSeq ! (j - 1) then 0 else 1);
          three = min delete (min insert replace)
      in if i > 1 \<and> j > 1 \<and> rowSeq ! (i - 1) = colSeq ! (j - 2) \<and> rowSeq ! (i - 2) = colSeq ! (j - 1)
         then min three (cell t (i - 2) (j - 2) + 1)
         else three)"

text \<open>The reference backtrace of the specification: the first eligible candidate in the
  order Replace, Transpose, Insert, Delete, with the transposition eligible when
  \<open>table[i-2][j-2] + 1 \<le> v\<close>. The symbols are collected in the order they are emitted,
  the first for the corner \<open>(len s0, len s1)\<close>. No eligible candidate is \<open>None\<close>.\<close>

function spec_backtrace ::
  "'a list \<Rightarrow> 'a list \<Rightarrow> table \<Rightarrow> nat \<Rightarrow> nat \<Rightarrow> string list \<Rightarrow> string list option" where
  "spec_backtrace s0 s1 t i j emitted =
     (if i = 0 then Some (emitted @ replicate j ''I'')
      else if j = 0 then Some (emitted @ replicate i ''D'')
      else
        let v = cell t i j in
        if cell t (i - 1) (j - 1) + (if s0 ! (i - 1) = s1 ! (j - 1) then 0 else 1) \<le> v then
          spec_backtrace s0 s1 t (i - 1) (j - 1)
            (if s0 ! (i - 1) \<noteq> s1 ! (j - 1) then emitted @ [''R''] else emitted)
        else if i > 1 \<and> j > 1 \<and> s0 ! (i - 1) = s1 ! (j - 2) \<and> s0 ! (i - 2) = s1 ! (j - 1)
                \<and> cell t (i - 2) (j - 2) + 1 \<le> v then
          spec_backtrace s0 s1 t (i - 2) (j - 2) (emitted @ [''T''])
        else if cell t i (j - 1) \<le> v then
          spec_backtrace s0 s1 t i (j - 1) (emitted @ [''I''])
        else if cell t (i - 1) j \<le> v then
          spec_backtrace s0 s1 t (i - 1) j (emitted @ [''D''])
        else None)"
  by pat_completeness auto
termination
  by (relation "measure (\<lambda>(s0, s1, t, i, j, emitted). i + j)") auto

definition spec_transformation_list :: "'a list \<Rightarrow> 'a list \<Rightarrow> string list option" where
  "spec_transformation_list s0 s1 = do {
     t \<leftarrow> get_edit_dist_table s0 s1;
     spec_backtrace s0 s1 t (length s0) (length s1) []
   }"

section \<open>Well-formed tables\<close>

text \<open>A table of \<open>R + 1\<close> rows of \<open>C + 1\<close> entries each, the table with no negative
  entry, and the table after the assignment \<^verbatim>\<open>t[i][j] = v\<close>.\<close>

definition table_ok :: "nat \<Rightarrow> nat \<Rightarrow> table \<Rightarrow> bool" where
  "table_ok R C t = (length t = Suc R \<and> list_all (\<lambda>row. length row = Suc C) t)"


definition table_nonneg :: "table \<Rightarrow> bool" where
  "table_nonneg t = list_all (list_all (\<lambda>v. 0 \<le> v)) t"

definition upd :: "table \<Rightarrow> nat \<Rightarrow> nat \<Rightarrow> int \<Rightarrow> table" where
  "upd t i j v = t[i := (t ! i)[j := v]]"


declare get_transformation.simps [simp del]
declare spec_backtrace.simps [simp del]
declare delete_loop.simps [simp del]
declare insert_loop.simps [simp del]

section \<open>Indexing inside the bounds\<close>

lemma py_index_nat: "i < length xs \<Longrightarrow> py_index xs (int i) = Some (xs ! i)"
  by (simp add: py_index_def)

lemma py_index_pred: "0 < i \<Longrightarrow> i \<le> length xs \<Longrightarrow> py_index xs (int i - 1) = Some (xs ! (i - 1))"
  using py_index_nat [of "i - 1" xs] by (simp add: of_nat_diff)

lemma py_index_total:
  assumes "- int (length xs) \<le> k" "k < int (length xs)"
  shows "\<exists>v. py_index xs k = Some v \<and> v \<in> set xs"
proof (cases "0 \<le> k")
  case True
  then have "py_index xs k = Some (xs ! nat k)" "nat k < length xs"
    using assms by (simp_all add: py_index_def)
  then show ?thesis by simp
next
  case False
  then have "py_index xs k = Some (xs ! nat (int (length xs) + k))"
    "nat (int (length xs) + k) < length xs"
    using assms by (simp_all add: py_index_def Let_def)
  then show ?thesis by simp
qed

lemma py_store_nat: "i < length xs \<Longrightarrow> py_store xs (int i) v = Some (xs[i := v])"
  by (simp add: py_store_def)

lemma list_all_update: "list_all P xs \<Longrightarrow> P x \<Longrightarrow> list_all P (xs[i := x])"
  by (induction xs arbitrary: i) (auto split: nat.splits)

lemma table_ok_length: "table_ok R C t \<Longrightarrow> length t = Suc R"
  by (simp add: table_ok_def)

lemma table_ok_row: "table_ok R C t \<Longrightarrow> i \<le> R \<Longrightarrow> length (t ! i) = Suc C"
  by (simp add: table_ok_def list_all_length)

lemma table_get_nat:
  assumes "table_ok R C t" "i \<le> R" "j \<le> C"
  shows "table_get t (int i) (int j) = Some (cell t i j)"
proof -
  have "py_index t (int i) = Some (t ! i)"
    using assms by (simp add: py_index_nat table_ok_length)
  moreover have "py_index (t ! i) (int j) = Some (t ! i ! j)"
    using assms by (simp add: py_index_nat table_ok_row)
  ultimately show ?thesis by (simp add: table_get_def cell_def)
qed

lemma table_get_total:
  assumes "table_ok R C t" "table_nonneg t"
    and "- int (Suc R) \<le> a" "a < int (Suc R)" "- int (Suc C) \<le> b" "b < int (Suc C)"
  shows "\<exists>v. table_get t a b = Some v \<and> 0 \<le> v"
proof -
  obtain row where row: "py_index t a = Some row" "row \<in> set t"
    using py_index_total [of t a] assms by (auto simp: table_ok_def)
  then have len: "length row = Suc C" and nonneg: "list_all (\<lambda>v. 0 \<le> v) row"
    using assms by (auto simp: table_ok_def table_nonneg_def list_all_iff)
  obtain v where v: "py_index row b = Some v" "v \<in> set row"
    using py_index_total [of row b] assms len by auto
  then have "0 \<le> v" using nonneg by (simp add: list_all_iff)
  then show ?thesis using row v by (simp add: table_get_def)
qed

lemma table_set_nat:
  assumes "table_ok R C t" "i \<le> R" "j \<le> C"
  shows "table_set t (int i) (int j) v = Some (upd t i j v)"
proof -
  have "py_index t (int i) = Some (t ! i)"
    using assms by (simp add: py_index_nat table_ok_length)
  moreover have "py_store (t ! i) (int j) v = Some ((t ! i)[j := v])"
    using assms by (simp add: py_store_nat table_ok_row)
  moreover have "py_store t (int i) ((t ! i)[j := v]) = Some (t[i := (t ! i)[j := v]])"
    using assms by (simp add: py_store_nat table_ok_length)
  ultimately show ?thesis by (simp add: table_set_def upd_def)
qed

lemma table_ok_upd:
  assumes "table_ok R C t"
  shows "table_ok R C (upd t i j v)"
proof (cases "i < length t")
  case True
  then have "length ((t ! i)[j := v]) = Suc C"
    using assms by (simp add: table_ok_def list_all_length)
  then show ?thesis
    using assms by (simp add: table_ok_def upd_def list_all_update)
next
  case False
  then show ?thesis using assms by (simp add: upd_def list_update_beyond)
qed

lemma table_nonneg_cell:
  "table_ok R C t \<Longrightarrow> table_nonneg t \<Longrightarrow> i \<le> R \<Longrightarrow> j \<le> C \<Longrightarrow> 0 \<le> cell t i j"
  by (simp add: table_ok_def table_nonneg_def cell_def list_all_length)

lemma table_nonneg_upd:
  assumes "table_nonneg t" "0 \<le> v"
  shows "table_nonneg (upd t i j v)"
proof (cases "i < length t")
  case True
  then have "list_all (\<lambda>v. 0 \<le> v) (t ! i)"
    using assms by (simp add: table_nonneg_def list_all_length)
  then have "list_all (\<lambda>v. 0 \<le> v) ((t ! i)[j := v])"
    using assms by (simp add: list_all_update)
  then show ?thesis
    using assms by (simp add: table_nonneg_def upd_def list_all_update)
next
  case False
  then show ?thesis using assms by (simp add: upd_def list_update_beyond)
qed

lemma cell_upd:
  "table_ok R C t \<Longrightarrow> i \<le> R \<Longrightarrow> j \<le> C \<Longrightarrow>
   cell (upd t i j v) i' j' = (if i' = i \<and> j' = j then v else cell t i' j')"
  by (auto simp: cell_def upd_def table_ok_def list_all_length nth_list_update)

section \<open>Loops with an invariant\<close>

lemma for_range_upto:
  assumes "I lo s" "lo \<le> hi + 1"
    and step: "\<And>k s. lo \<le> k \<Longrightarrow> k \<le> hi \<Longrightarrow> I k s \<Longrightarrow> \<exists>s'. body k s = Some s' \<and> I (k + 1) s'"
  shows "\<exists>s'. for_range [lo..hi] body s = Some s' \<and> I (hi + 1) s'"
  using assms(1,2) step
proof (induction "nat (hi + 1 - lo)" arbitrary: lo s)
  case 0
  then have "lo = hi + 1" by simp
  then show ?case using "0.prems"(1) by simp
next
  case (Suc n)
  then have le: "lo \<le> hi" by linarith
  obtain s' where s': "body lo s = Some s'" "I (lo + 1) s'"
    using Suc.prems(3) [of lo s] Suc.prems(1) le by auto
  have "\<exists>s''. for_range [lo + 1..hi] body s' = Some s'' \<and> I (hi + 1) s''"
  proof (rule Suc.hyps(1))
    show "n = nat (hi + 1 - (lo + 1))" using Suc.hyps(2) by linarith
    show "I (lo + 1) s'" by (rule s')
    show "lo + 1 \<le> hi + 1" using le by simp
    show "\<exists>s'. body k s = Some s' \<and> I (k + 1) s'" if "lo + 1 \<le> k" "k \<le> hi" "I k s" for k s
      using Suc.prems(3) [of k s] that by simp
  qed
  then show ?case using s' le by (simp add: upto_rec1 [of lo hi])
qed

lemma for_range_skip: "for_range ks (\<lambda>k s. Some s) s = Some s"
  by (induction ks) simp_all

section \<open>One cell of the table\<close>

lemma adjacent_swapped_total:
  assumes "0 < i" "i \<le> length a" "0 < j" "j \<le> length b"
  shows "\<exists>sw. adjacent_swapped a b (int i) (int j) = Some sw"
proof -
  obtain a1 where a1: "py_index a (int i - 1) = Some a1"
    using py_index_total [of a "int i - 1"] assms by auto
  obtain b2 where b2: "py_index b (int j - 2) = Some b2"
    using py_index_total [of b "int j - 2"] assms by auto
  obtain a2 where a2: "py_index a (int i - 2) = Some a2"
    using py_index_total [of a "int i - 2"] assms by auto
  obtain b1 where b1: "py_index b (int j - 1) = Some b1"
    using py_index_total [of b "int j - 1"] assms by auto
  show ?thesis by (cases "a1 = b2") (auto simp: adjacent_swapped_def a1 b2 a2 b1)
qed

lemma transpose_candidate_total:
  assumes "table_ok (length a) (length b) t" "table_nonneg t"
    and "0 < i" "i \<le> length a" "0 < j" "j \<le> length b"
  shows "\<exists>tv. transpose_candidate a b (int i) (int j) t = Some tv \<and> 0 \<le> tv"
proof -
  obtain sw where sw: "adjacent_swapped a b (int i) (int j) = Some sw"
    using adjacent_swapped_total assms(3-6) by blast
  obtain x where x: "table_get t (int i - 2) (int j - 2) = Some x" "0 \<le> x"
    using table_get_total [OF assms(1,2), of "int i - 2" "int j - 2"] assms(3-6) by auto
  show ?thesis by (simp add: transpose_candidate_def Let_def sw x)
qed

lemma fill_cell_step:
  assumes ok: "table_ok (length a) (length b) t" and nonneg: "table_nonneg t"
    and i: "0 < i" "i \<le> length a" and j: "0 < j" "j \<le> length b"
  shows "\<exists>v. fill_cell a b (int i) (int j) t = Some (upd t i j v) \<and> 0 \<le> v \<and>
             (if a ! (i - 1) = b ! (j - 1) then v \<le> cell t (i - 1) (j - 1) else True) \<and>
             v \<le> cell t (i - 1) j + 1"
proof -
  have d: "table_get t (int i - 1) (int j) = Some (cell t (i - 1) j)"
    using table_get_nat [OF ok, of "i - 1" j] i j by (simp add: of_nat_diff)
  have ins: "table_get t (int i) (int j - 1) = Some (cell t i (j - 1))"
    using table_get_nat [OF ok, of i "j - 1"] i j by (simp add: of_nat_diff)
  have r: "table_get t (int i - 1) (int j - 1) = Some (cell t (i - 1) (j - 1))"
    using table_get_nat [OF ok, of "i - 1" "j - 1"] i j by (simp add: of_nat_diff)
  have ca: "py_index a (int i - 1) = Some (a ! (i - 1))"
    using i by (rule py_index_pred)
  have cb: "py_index b (int j - 1) = Some (b ! (j - 1))"
    using j by (rule py_index_pred)
  obtain tv where tv: "transpose_candidate a b (int i) (int j) t = Some tv" "0 \<le> tv"
    using transpose_candidate_total [OF ok nonneg i j] by blast
  have pos: "0 \<le> cell t (i - 1) j" "0 \<le> cell t i (j - 1)" "0 \<le> cell t (i - 1) (j - 1)"
    using table_nonneg_cell [OF ok nonneg] i j by simp_all
  define rv where "rv = (if a ! (i - 1) \<noteq> b ! (j - 1) then cell t (i - 1) (j - 1) + 1
                         else cell t (i - 1) (j - 1))"
  define v where "v = min (cell t (i - 1) j + 1) (min (cell t i (j - 1) + 1) (min rv tv))"
  have "fill_cell a b (int i) (int j) t = Some (upd t i j v)"
    by (simp add: fill_cell_def d ins r ca cb tv(1) table_set_nat [OF ok] i j v_def rv_def)
  moreover have "0 \<le> rv" using pos by (simp add: rv_def)
  then have "0 \<le> v" using pos tv(2) by (simp add: v_def)
  moreover have "v \<le> cell t (i - 1) (j - 1)" if "a ! (i - 1) = b ! (j - 1)"
    using that by (simp add: v_def rv_def min_le_iff_disj)
  moreover have "v \<le> cell t (i - 1) j + 1" by (simp add: v_def)
  ultimately show ?thesis by auto
qed

section \<open>The loops of the table construction\<close>

lemma initial_table:
  "table_ok R C (replicate (Suc R) (replicate (Suc C) 0))"
  "table_nonneg (replicate (Suc R) (replicate (Suc C) 0))"
  "i \<le> R \<Longrightarrow> j \<le> C \<Longrightarrow> cell (replicate (Suc R) (replicate (Suc C) 0)) i j = 0"
  by (simp_all add: table_ok_def table_nonneg_def cell_def list_all_iff del: replicate_Suc)

lemma first_row_loop:
  assumes ok: "table_ok R C t" and nonneg: "table_nonneg t" and zero: "cell t 0 0 = 0"
  shows "\<exists>t'. for_range [1..int C] (\<lambda>col_index t. table_set t 0 col_index col_index) t = Some t' \<and>
           table_ok R C t' \<and> table_nonneg t' \<and> (\<forall>j\<le>C. cell t' 0 j = int j)"
proof -
  define I where "I k u \<longleftrightarrow> table_ok R C u \<and> table_nonneg u \<and> (\<forall>j. int j < k \<longrightarrow> cell u 0 j = int j)"
    for k u
  have "\<exists>t'. for_range [1..int C] (\<lambda>col_index t. table_set t 0 col_index col_index) t = Some t' \<and>
          I (int C + 1) t'"
  proof (rule for_range_upto)
    show "I 1 t" using ok nonneg zero by (auto simp: I_def)
    show "1 \<le> int C + 1" by simp
    show "\<exists>s'. table_set s 0 k k = Some s' \<and> I (k + 1) s'" if "1 \<le> k" "k \<le> int C" "I k s" for k s
    proof -
      have oks: "table_ok R C s" and nns: "table_nonneg s" using that(3) by (simp_all add: I_def)
      have k: "k = int (nat k)" "nat k \<le> C" using that by simp_all
      have set: "table_set s 0 k k = Some (upd s 0 (nat k) k)"
        using table_set_nat [OF oks, of 0 "nat k" k] k by simp
      have "cell (upd s 0 (nat k) k) 0 j = int j" if "int j < k + 1" for j
        using that \<open>I k s\<close> k by (auto simp: cell_upd [OF oks] I_def)
      then have "I (k + 1) (upd s 0 (nat k) k)"
        using oks nns that(1) by (simp add: I_def table_ok_upd table_nonneg_upd)
      then show ?thesis using set by simp
    qed
  qed
  then show ?thesis by (auto simp: I_def)
qed

lemma first_column_loop:
  assumes ok: "table_ok R C t" and nonneg: "table_nonneg t"
  shows "\<exists>t'. for_range [1..int R] (\<lambda>row_index t. table_set t row_index 0 row_index) t = Some t' \<and>
           table_ok R C t' \<and> table_nonneg t' \<and> (\<forall>j. cell t' 0 j = cell t 0 j) \<and>
           (\<forall>i\<le>R. 0 < i \<longrightarrow> cell t' i 0 = int i)"
proof -
  define I where "I k u \<longleftrightarrow> table_ok R C u \<and> table_nonneg u \<and> (\<forall>j. cell u 0 j = cell t 0 j) \<and>
      (\<forall>i. 0 < i \<longrightarrow> int i < k \<longrightarrow> cell u i 0 = int i)" for k u
  have "\<exists>t'. for_range [1..int R] (\<lambda>row_index t. table_set t row_index 0 row_index) t = Some t' \<and>
          I (int R + 1) t'"
  proof (rule for_range_upto)
    show "I 1 t" using ok nonneg by (auto simp: I_def)
    show "1 \<le> int R + 1" by simp
    show "\<exists>s'. table_set s k 0 k = Some s' \<and> I (k + 1) s'" if "1 \<le> k" "k \<le> int R" "I k s" for k s
    proof -
      have oks: "table_ok R C s" and nns: "table_nonneg s" using that(3) by (simp_all add: I_def)
      have k: "k = int (nat k)" "nat k \<le> R" "0 < nat k" using that by simp_all
      have set: "table_set s k 0 k = Some (upd s (nat k) 0 k)"
        using table_set_nat [OF oks, of "nat k" 0 k] k by simp
      have "cell (upd s (nat k) 0 k) i 0 = int i" if "0 < i" "int i < k + 1" for i
        using that \<open>I k s\<close> k by (auto simp: cell_upd [OF oks] I_def)
      moreover have "cell (upd s (nat k) 0 k) 0 j = cell t 0 j" for j
        using \<open>I k s\<close> k by (auto simp: cell_upd [OF oks] I_def)
      ultimately have "I (k + 1) (upd s (nat k) 0 k)"
        using oks nns that(1) by (simp add: I_def table_ok_upd table_nonneg_upd)
      then show ?thesis using set by simp
    qed
  qed
  then show ?thesis by (auto simp: I_def)
qed

lemma inner_loop:
  assumes ok: "table_ok (length a) (length b) t" and nonneg: "table_nonneg t"
    and i: "0 < i" "i \<le> length a"
  shows "\<exists>t'. for_range [1..int (length b)] (\<lambda>col_index t'. fill_cell a b (int i) col_index t') t = Some t' \<and>
           table_ok (length a) (length b) t' \<and> table_nonneg t' \<and>
           (\<forall>i' j'. i' \<noteq> i \<or> j' = 0 \<longrightarrow> cell t' i' j' = cell t i' j') \<and>
           (i \<le> length b \<longrightarrow> a ! (i - 1) = b ! (i - 1) \<longrightarrow> cell t (i - 1) (i - 1) = 0 \<longrightarrow> cell t' i i = 0)"
proof -
  define I where "I k u \<longleftrightarrow> table_ok (length a) (length b) u \<and> table_nonneg u \<and>
      (\<forall>i' j'. i' \<noteq> i \<or> j' = 0 \<longrightarrow> cell u i' j' = cell t i' j') \<and>
      (int i < k \<longrightarrow> a ! (i - 1) = b ! (i - 1) \<longrightarrow> cell t (i - 1) (i - 1) = 0 \<longrightarrow> cell u i i = 0)" for k u
  have "\<exists>t'. for_range [1..int (length b)] (\<lambda>col_index t'. fill_cell a b (int i) col_index t') t = Some t' \<and>
          I (int (length b) + 1) t'"
  proof (rule for_range_upto)
    show "I 1 t" using ok nonneg i by (auto simp: I_def)
    show "1 \<le> int (length b) + 1" by simp
    show "\<exists>s'. fill_cell a b (int i) k s = Some s' \<and> I (k + 1) s'"
      if "1 \<le> k" "k \<le> int (length b)" "I k s" for k s
    proof -
      have oks: "table_ok (length a) (length b) s" and nns: "table_nonneg s"
        using that(3) by (simp_all add: I_def)
      have k: "k = int (nat k)" "nat k \<le> length b" "0 < nat k" using that by simp_all
      obtain v where v: "fill_cell a b (int i) (int (nat k)) s = Some (upd s i (nat k) v)" "0 \<le> v"
        "if a ! (i - 1) = b ! (nat k - 1) then v \<le> cell s (i - 1) (nat k - 1) else True"
        using fill_cell_step [OF oks nns i k(3,2)] by blast
      have frame: "cell (upd s i (nat k) v) i' j' = cell t i' j'" if "i' \<noteq> i \<or> j' = 0" for i' j'
        using that \<open>I k s\<close> k i by (auto simp: cell_upd [OF oks] I_def)
      have diag: "cell (upd s i (nat k) v) i i = 0"
        if "int i < k + 1" "a ! (i - 1) = b ! (i - 1)" "cell t (i - 1) (i - 1) = 0"
      proof (cases "nat k = i")
        case True
        have "cell s (i - 1) (i - 1) = 0"
          using \<open>I k s\<close> that(3) i by (simp add: I_def)
        then have "v = 0" using v(2,3) that(2) True by simp
        then show ?thesis using True k i by (simp add: cell_upd [OF oks])
      next
        case False
        then have "int i < k" using that(1) k by linarith
        then have "cell s i i = 0" using \<open>I k s\<close> that by (simp add: I_def)
        then show ?thesis using False k i by (simp add: cell_upd [OF oks])
      qed
      have "I (k + 1) (upd s i (nat k) v)"
        unfolding I_def using oks nns v(2) frame diag
        by (simp add: table_ok_upd table_nonneg_upd)
      then show ?thesis using v(1) k(1) by simp
    qed
  qed
  then show ?thesis by (auto simp: I_def)
qed

lemma outer_loop:
  assumes ok: "table_ok (length a) (length b) t" and nonneg: "table_nonneg t"
  shows "\<exists>t'. for_range [1..int (length a)]
             (\<lambda>row_index t. for_range [1..int (length b)]
                 (\<lambda>col_index t'. fill_cell a b row_index col_index t') t) t = Some t' \<and>
           table_ok (length a) (length b) t' \<and> table_nonneg t' \<and>
           (\<forall>i' j'. i' = 0 \<or> j' = 0 \<longrightarrow> cell t' i' j' = cell t i' j') \<and>
           (a = b \<longrightarrow> cell t 0 0 = 0 \<longrightarrow> (\<forall>m\<le>length a. cell t' m m = 0))"
proof -
  define I where "I k u \<longleftrightarrow> table_ok (length a) (length b) u \<and> table_nonneg u \<and>
      (\<forall>i' j'. i' = 0 \<or> j' = 0 \<longrightarrow> cell u i' j' = cell t i' j') \<and>
      (a = b \<longrightarrow> cell t 0 0 = 0 \<longrightarrow> (\<forall>m. int m < k \<longrightarrow> cell u m m = 0))" for k u
  have "\<exists>t'. for_range [1..int (length a)]
             (\<lambda>row_index t. for_range [1..int (length b)]
                 (\<lambda>col_index t'. fill_cell a b row_index col_index t') t) t = Some t' \<and>
          I (int (length a) + 1) t'"
  proof (rule for_range_upto)
    show "I 1 t" using ok nonneg by (auto simp: I_def)
    show "1 \<le> int (length a) + 1" by simp
    show "\<exists>s'. for_range [1..int (length b)] (\<lambda>col_index t'. fill_cell a b k col_index t') s = Some s' \<and>
            I (k + 1) s'"
      if "1 \<le> k" "k \<le> int (length a)" "I k s" for k s
    proof -
      have oks: "table_ok (length a) (length b) s" and nns: "table_nonneg s"
        using that(3) by (simp_all add: I_def)
      have k: "k = int (nat k)" "nat k \<le> length a" "0 < nat k" using that by simp_all
      obtain s' where s': "for_range [1..int (length b)]
            (\<lambda>col_index t'. fill_cell a b (int (nat k)) col_index t') s = Some s'"
        "table_ok (length a) (length b) s'" "table_nonneg s'"
        "\<forall>i' j'. i' \<noteq> nat k \<or> j' = 0 \<longrightarrow> cell s' i' j' = cell s i' j'"
        "nat k \<le> length b \<longrightarrow> a ! (nat k - 1) = b ! (nat k - 1) \<longrightarrow>
           cell s (nat k - 1) (nat k - 1) = 0 \<longrightarrow> cell s' (nat k) (nat k) = 0"
        using inner_loop [OF oks nns k(3,2)] by blast
      have border: "cell s' i' j' = cell t i' j'" if "i' = 0 \<or> j' = 0" for i' j'
        using that s'(4) \<open>I k s\<close> k(3) by (auto simp: I_def)
      have diag: "cell s' m m = 0" if "a = b" "cell t 0 0 = 0" "int m < k + 1" for m
      proof (cases "m = nat k")
        case True
        have "int (nat k - 1) < k" using k by linarith
        then have "cell s (nat k - 1) (nat k - 1) = 0"
          using \<open>I k s\<close> that(1,2) by (simp add: I_def)
        then show ?thesis using s'(5) that(1) k(2) True by simp
      next
        case False
        then have "int m < k" using that(3) k by linarith
        then have "cell s m m = 0" using \<open>I k s\<close> that(1,2) by (simp add: I_def)
        then show ?thesis using s'(4) False by simp
      qed
      have "I (k + 1) s'"
        unfolding I_def using s'(2,3) border diag by simp
      then show ?thesis using s'(1) k(1) by simp
    qed
  qed
  then show ?thesis by (auto simp: I_def)
qed

lemma get_edit_dist_table_built:
  "\<exists>t. get_edit_dist_table a b = Some t \<and>
       table_ok (length a) (length b) t \<and> table_nonneg t \<and>
       (\<forall>j\<le>length b. cell t 0 j = int j) \<and>
       (\<forall>i\<le>length a. cell t i 0 = int i) \<and>
       (a = b \<longrightarrow> (\<forall>m\<le>length a. cell t m m = 0))"
proof -
  let ?t0 = "replicate (Suc (length a)) (replicate (Suc (length b)) (0::int))"
  obtain t1 where t1:
    "for_range [1..int (length b)] (\<lambda>col_index t. table_set t 0 col_index col_index) ?t0 = Some t1"
    "table_ok (length a) (length b) t1" "table_nonneg t1" "\<forall>j\<le>length b. cell t1 0 j = int j"
    using first_row_loop [OF initial_table(1,2), of "length a" "length b"] initial_table(3) [of 0 "length a" 0 "length b"]
    by auto
  obtain t2 where t2:
    "for_range [1..int (length a)] (\<lambda>row_index t. table_set t row_index 0 row_index) t1 = Some t2"
    "table_ok (length a) (length b) t2" "table_nonneg t2" "\<forall>j. cell t2 0 j = cell t1 0 j"
    "\<forall>i\<le>length a. 0 < i \<longrightarrow> cell t2 i 0 = int i"
    using first_column_loop [OF t1(2,3)] by blast
  obtain t3 where t3:
    "for_range [1..int (length a)]
       (\<lambda>row_index t. for_range [1..int (length b)]
           (\<lambda>col_index t'. fill_cell a b row_index col_index t') t) t2 = Some t3"
    "table_ok (length a) (length b) t3" "table_nonneg t3"
    "\<forall>i' j'. i' = 0 \<or> j' = 0 \<longrightarrow> cell t3 i' j' = cell t2 i' j'"
    "a = b \<longrightarrow> cell t2 0 0 = 0 \<longrightarrow> (\<forall>m\<le>length a. cell t3 m m = 0)"
    using outer_loop [OF t2(2,3)] by blast
  have nat_eq: "nat (int (length a) + 1) = Suc (length a)" "nat (int (length b) + 1) = Suc (length b)"
    by simp_all
  have built: "get_edit_dist_table a b = Some t3"
    by (simp only: get_edit_dist_table_def Let_def nat_eq t1(1) t2(1) t3(1) bind.simps)
  have row0: "cell t3 0 j = int j" if "j \<le> length b" for j
    using that t3(4) t2(4) t1(4) by simp
  have col0: "cell t3 i 0 = int i" if "i \<le> length a" for i
  proof (cases "i = 0")
    case True
    then show ?thesis using row0 [of 0] by simp
  next
    case False
    then show ?thesis using that t3(4) t2(5) by simp
  qed
  have "cell t2 0 0 = 0" using t2(4) t1(4) by simp
  then have diag: "a = b \<longrightarrow> (\<forall>m\<le>length a. cell t3 m m = 0)" using t3(5) by simp
  show ?thesis using built t3(2,3) row0 col0 diag by blast
qed

section \<open>The backtrace on a well-formed table\<close>

lemma delete_loop_replicate: "delete_loop k xs = xs @ replicate (nat k) ''D''"
proof (induction k xs rule: delete_loop.induct)
  case (1 row_index complete_transform_list)
  show ?case
  proof (cases "row_index > 0")
    case True
    then have "nat row_index = Suc (nat (row_index - 1))" by simp
    then show ?thesis
      using 1 True by (subst delete_loop.simps) (simp add: replicate_app_Cons_same)
  next
    case False
    then show ?thesis by (subst delete_loop.simps) simp
  qed
qed

lemma insert_loop_replicate: "insert_loop k xs = xs @ replicate (nat k) ''I''"
proof (induction k xs rule: insert_loop.induct)
  case (1 col_index complete_transform_list)
  show ?case
  proof (cases "col_index > 0")
    case True
    then have "nat col_index = Suc (nat (col_index - 1))" by simp
    then show ?thesis
      using 1 True by (subst insert_loop.simps) (simp add: replicate_app_Cons_same)
  next
    case False
    then show ?thesis by (subst insert_loop.simps) simp
  qed
qed


text \<open>On a table with a zero diagonal the backtrace of \<open>(s, s)\<close> goes down the diagonal,
  one nested call for each symbol and one for the corner \<open>(0, 0)\<close>, and appends nothing;
  with fewer frames than that it raises.\<close>

lemma get_transformation_diagonal:
  assumes ok: "table_ok (length s) (length s) t" and nonneg: "table_nonneg t"
    and diag: "\<forall>m\<le>length s. cell t m m = 0"
  shows "i \<le> length s \<Longrightarrow>
         get_transformation frames s s (int i) (int i) acc t =
           (if i < frames then Some (rev acc, acc) else None)"
proof (induction i arbitrary: frames)
  case 0
  show ?case by (cases frames) (simp_all add: get_transformation.simps)
next
  case (Suc k)
  show ?case
  proof (cases frames)
    case 0
    then show ?thesis by (simp add: get_transformation.simps(1))
  next
    case (Suc f)
    define r where "r = int (Suc k)"
    have r: "0 < r" "r \<le> int (length s)" "r - 1 = int k" "r = int (Suc k)"
      using Suc.prems by (simp_all add: r_def)
    have k: "k < length s" using Suc.prems by simp
    have cv: "table_get t r r = Some 0"
      using table_get_nat [OF ok, of "Suc k" "Suc k"] diag Suc.prems by (simp add: r_def)
    have rv: "table_get t (r - 1) (r - 1) = Some 0"
      using table_get_nat [OF ok, of k k] diag k by (simp add: r(3))
    obtain dv where dv: "table_get t (r - 1) r = Some dv"
      using table_get_total [OF ok nonneg, of "r - 1" r] r(1,2) by auto
    obtain iv where iv: "table_get t r (r - 1) = Some iv"
      using table_get_total [OF ok nonneg, of r "r - 1"] r(1,2) by auto
    obtain tv where tv: "table_get t (r - 2) (r - 2) = Some tv"
      using table_get_total [OF ok nonneg, of "r - 2" "r - 2"] r(1,2) by auto
    have a: "py_index s (r - 1) = Some (s ! k)"
      using py_index_nat [OF k] by (simp add: r(3))
    have step: "get_transformation (Suc f) s s r r acc t = get_transformation f s s (r - 1) (r - 1) acc t"
      using r(1) by (simp add: get_transformation.simps(2) cv rv dv iv tv a)
    have "get_transformation f s s (int k) (int k) acc t = (if k < f then Some (rev acc, acc) else None)"
      using Suc.IH [of f] k by simp
    then have "get_transformation (Suc f) s s r r acc t = (if Suc k < Suc f then Some (rev acc, acc) else None)"
      using step by (simp add: r(3))
    then show ?thesis using \<open>frames = Suc f\<close> by (simp only: r(4))
  qed
qed

text \<open>More room on the stack does not change a result.\<close>

lemma get_transformation_mono:
  "get_transformation frames s0 s1 i j acc t = Some res \<Longrightarrow>
   get_transformation (frames + k) s0 s1 i j acc t = Some res"
proof (induction frames arbitrary: i j acc)
  case 0
  then show ?case by (simp add: get_transformation.simps(1))
next
  case (Suc f)
  show ?case
  proof (cases "i = 0 \<and> j = 0")
    case True
    then show ?thesis using Suc.prems by (simp add: get_transformation.simps(2))
  next
    case False
    from Suc.prems False obtain cv dv iv rv a b tv where reads:
      "table_get t i j = Some cv" "table_get t (i - 1) j = Some dv"
      "table_get t i (j - 1) = Some iv" "table_get t (i - 1) (j - 1) = Some rv"
      "py_index s0 (i - 1) = Some a" "py_index s1 (j - 1) = Some b"
      "table_get t (i - 2) (j - 2) = Some tv"
      by (auto simp: get_transformation.simps(2) bind_eq_Some_conv)
    show ?thesis
    proof (cases "(if a \<noteq> b then rv + 1 else rv) \<le> cv \<and> (i > 0 \<and> j > 0)")
      case True
      then show ?thesis
        using Suc.prems False Suc.IH
        by (simp add: get_transformation.simps(2) reads Let_def)
    next
      case noreplace: False
      obtain sw where sw: "(if tv \<le> cv \<and> (i > 1 \<and> j > 1) then adjacent_swapped s0 s1 i j else Some False) = Some sw"
        using Suc.prems False noreplace
        by (auto simp: get_transformation.simps(2) reads Let_def bind_eq_Some_conv)
      show ?thesis
        using Suc.prems False noreplace Suc.IH
        by (auto simp: get_transformation.simps(2) reads Let_def sw split: if_splits)
    qed
  qed
qed

lemma get_transformation_list_unfold:
  assumes "get_edit_dist_table s0 s1 = Some t"
  shows "get_transformation_list frames s0 s1 = transformation_list_with_table frames s0 s1 [] t"
  using assms by (simp add: get_transformation_list_def get_transformation_list_with_table_def)


lemma get_transformation_list_mono:
  assumes "get_transformation_list frames s0 s1 = Some l"
  shows "get_transformation_list (frames + k) s0 s1 = Some l"
proof -
  obtain t where t: "get_edit_dist_table s0 s1 = Some t"
    using get_edit_dist_table_built [of s0 s1] by blast
  show ?thesis
  proof (cases "s0 = [] \<or> s1 = []")
    case True
    then show ?thesis
      using assms
      by (auto simp: get_transformation_list_unfold [OF t] transformation_list_with_table_def Let_def)
  next
    case False
    then obtain res where res:
      "get_transformation frames s0 s1 (int (length s0)) (int (length s1)) [] t = Some res" "snd res = l"
      using assms
      by (auto simp: get_transformation_list_unfold [OF t] transformation_list_with_table_def Let_def
          split: Option.bind_splits)
    have "get_transformation (frames + k) s0 s1 (int (length s0)) (int (length s1)) [] t = Some res"
      using res(1) by (rule get_transformation_mono)
    then show ?thesis
      using False res(2)
      by (cases res)
        (simp add: get_transformation_list_unfold [OF t] transformation_list_with_table_def Let_def)
  qed
qed

lemma get_transformation_list_same:
  "get_transformation_list frames s s = (if s = [] \<or> length s < frames then Some [] else None)"
proof -
  obtain t where t: "get_edit_dist_table s s = Some t" "table_ok (length s) (length s) t"
    "table_nonneg t" "\<forall>m\<le>length s. cell t m m = 0"
    using get_edit_dist_table_built [of s s] by blast
  have "get_transformation frames s s (int (length s)) (int (length s)) [] t =
          (if length s < frames then Some (rev [], []) else None)"
    using get_transformation_diagonal [OF t(2,3,4), of "length s" frames "[]"] by simp
  then show ?thesis
    by (simp add: get_transformation_list_unfold [OF t(1)] transformation_list_with_table_def
        Let_def delete_loop_replicate)
qed

section \<open>Every entry of the table is at most the sum of its indices\<close>






section \<open>The distance in the cases that need no recurrence\<close>


lemma edit_distance_from_empty: "edit_distance [] s = Some (int (length s))"
proof -
  obtain t where t: "get_edit_dist_table [] s = Some t" "table_ok (length ([]::'a list)) (length s) t"
    "\<forall>j\<le>length s. cell t 0 j = int j"
    using get_edit_dist_table_built [of "[]" s] by blast
  have "table_get t (int 0) (int (length s)) = Some (int (length s))"
    using table_get_nat [OF t(2), of 0 "length s"] t(3) by simp
  then show ?thesis by (auto simp: edit_distance_def t(1))
qed

lemma edit_distance_to_empty: "edit_distance s [] = Some (int (length s))"
proof -
  obtain u where u: "get_edit_dist_table s [] = Some u" "table_ok (length s) (length ([]::'a list)) u"
    "\<forall>i\<le>length s. cell u i 0 = int i"
    using get_edit_dist_table_built [of s "[]"] by blast
  have "table_get u (int (length s)) (int 0) = Some (int (length s))"
    using table_get_nat [OF u(2), of "length s" 0] u(3) by simp
  then show ?thesis by (auto simp: edit_distance_def u(1))
qed

section \<open>Claims settled at concrete strings\<close>

text \<open>
  C1. The claim: the table satisfies the recurrence, with the transposition term in the
  minimum only when \<open>i > 1\<close> and \<open>j > 1\<close>. On \<^verbatim>\<open>"a"\<close> and \<^verbatim>\<open>"aaa"\<close> the code's guard
  \<^verbatim>\<open>row_index + col_index > 2\<close> holds at cell \<open>(1, 3)\<close>; the indices \<open>-1\<close> wrap around, the
  character test succeeds and the cell gets \<^verbatim>\<open>memo_table[-1][1] + 1 = 1\<close>, where the
  recurrence of the claim gives \<open>2\<close>.
\<close>

theorem table_breaks_recurrence:
  "get_edit_dist_table ''a'' ''aaa'' = Some [[0, 1, 2, 3], [1, 0, 1, 1]] \<and>
   table_get [[0, 1, 2, 3], [1, 0, 1, 1]] 1 3 = Some 1 \<and>
   spec_recurrence ''a'' ''aaa'' [[0, 1, 2, 3], [1, 0, 1, 1]] 1 3 = 2"
  by code_simp

text \<open>The lists of the two worked pairs, for any stack that leaves room for the nested
  calls their backtraces make: three from \<^verbatim>\<open>"yxy"\<close> to \<^verbatim>\<open>"yx"\<close>, four between \<^verbatim>\<open>"hack"\<close>
  and \<^verbatim>\<open>"fkc"\<close>.\<close>

lemma yxy_yx_list: "get_transformation_list (frames + 3) ''yxy'' ''yx'' = Some [''T'', ''D'']"
proof -
  have "get_transformation_list 3 ''yxy'' ''yx'' = Some [''T'', ''D'']" by code_simp
  then show ?thesis
    using get_transformation_list_mono [of 3 "''yxy''" "''yx''" _ frames] by (simp add: add.commute)
qed

lemma hack_fkc_list:
  "get_transformation_list (frames + 4) ''hack'' ''fkc'' = Some [''T'', ''R'', ''D'']"
proof -
  have "get_transformation_list 4 ''hack'' ''fkc'' = Some [''T'', ''R'', ''D'']" by code_simp
  then show ?thesis
    using get_transformation_list_mono [of 4 "''hack''" "''fkc''" _ frames] by (simp add: add.commute)
qed

lemma fkc_hack_list:
  "get_transformation_list (frames + 4) ''fkc'' ''hack'' = Some [''T'', ''R'', ''I'']"
proof -
  have "get_transformation_list 4 ''fkc'' ''hack'' = Some [''T'', ''R'', ''I'']" by code_simp
  then show ?thesis
    using get_transformation_list_mono [of 4 "''fkc''" "''hack''" _ frames] by (simp add: add.commute)
qed

text \<open>
  C2. The claim: the list is the one of the reference backtrace, whose transposition is
  eligible when \<open>table[i-2][j-2] + 1 \<le> v\<close>. The code compares \<open>table[i-2][j-2] \<le> v\<close>: on
  \<^verbatim>\<open>"yxy"\<close> and \<^verbatim>\<open>"yx"\<close>, whose distance is 1, it emits a transposition and then a
  deletion (whenever the stack leaves room for the three nested calls), where the
  reference backtrace emits the one deletion.
\<close>

theorem backtrace_differs_from_reference:
  "get_edit_dist_table ''yxy'' ''yx'' = Some [[0, 1, 2], [1, 0, 1], [2, 1, 0], [3, 2, 1]] \<and>
   get_transformation_list (frames + 3) ''yxy'' ''yx'' = Some [''T'', ''D''] \<and>
   spec_transformation_list ''yxy'' ''yx'' = Some [''D'']"
proof -
  have "get_edit_dist_table ''yxy'' ''yx'' = Some [[0, 1, 2], [1, 0, 1], [2, 1, 0], [3, 2, 1]]"
    "spec_transformation_list ''yxy'' ''yx'' = Some [''D'']"
    by code_simp+
  then show ?thesis using yxy_yx_list [of frames] by simp
qed

text \<open>
  C3. The claim: the distance is the length of the transformation list. On \<^verbatim>\<open>"yxy"\<close>
  and \<^verbatim>\<open>"yx"\<close> the distance is 1 and the list has two elements.
\<close>

theorem distance_is_not_list_length:
  "edit_distance ''yxy'' ''yx'' = Some 1 \<and>
   map_option length (get_transformation_list (frames + 3) ''yxy'' ''yx'') = Some 2"
proof -
  have "edit_distance ''yxy'' ''yx'' = Some 1" by code_simp
  then show ?thesis using yxy_yx_list [of frames] by simp
qed

text \<open>
  C4. The worked example of the docstring: the distance of \<^verbatim>\<open>"hack"\<close> and \<^verbatim>\<open>"fkc"\<close> is 3,
  and the two transformation lists are \<^verbatim>\<open>["T", "R", "D"]\<close> and \<^verbatim>\<open>["T", "R", "I"]\<close>, whenever
  the stack leaves room for the four nested calls of either backtrace.
\<close>

theorem hack_fkc_example:
  "edit_distance ''hack'' ''fkc'' = Some 3 \<and>
   get_transformation_list (frames + 4) ''hack'' ''fkc'' = Some [''T'', ''R'', ''D''] \<and>
   get_transformation_list (frames + 4) ''fkc'' ''hack'' = Some [''T'', ''R'', ''I'']"
proof -
  have "edit_distance ''hack'' ''fkc'' = Some 3" by code_simp
  then show ?thesis using hack_fkc_list [of frames] fkc_hack_list [of frames] by simp
qed

text \<open>
  C8. The claim: the distance is symmetric. The code returns 1 from \<^verbatim>\<open>"aa"\<close> to \<^verbatim>\<open>"aaaa"\<close>
  and 2 from \<^verbatim>\<open>"aaaa"\<close> to \<^verbatim>\<open>"aa"\<close>.
\<close>

theorem distance_not_symmetric:
  "edit_distance ''aa'' ''aaaa'' = Some 1 \<and> edit_distance ''aaaa'' ''aa'' = Some 2"
  by code_simp


section \<open>The triangle inequality\<close>




section \<open>Claims about all strings\<close>

text \<open>
  C6. For every string \<open>s\<close>: the distance from the empty string to \<open>s\<close> is the length of
  \<open>s\<close> and the transformation list is \<^verbatim>\<open>'I'\<close> repeated that many times; the distance from
  \<open>s\<close> to the empty string is the length of \<open>s\<close> and the list is \<^verbatim>\<open>'D'\<close> repeated that many
  times. Neither list needs a nested call, so the recursion limit plays no part.
\<close>

theorem empty_string_distance_and_list:
  "edit_distance [] s = Some (int (length s)) \<and>
   get_transformation_list frames [] s = Some (replicate (length s) ''I'') \<and>
   edit_distance s [] = Some (int (length s)) \<and>
   get_transformation_list frames s [] = Some (replicate (length s) ''D'')"
proof -
  obtain t where t: "get_edit_dist_table [] s = Some t"
    using get_edit_dist_table_built [of "[]" s] by blast
  obtain u where u: "get_edit_dist_table s [] = Some u"
    using get_edit_dist_table_built [of s "[]"] by blast
  have l1: "get_transformation_list frames [] s = Some (replicate (length s) ''I'')"
    by (simp add: get_transformation_list_unfold [OF t] transformation_list_with_table_def
        Let_def insert_loop_replicate delete_loop_replicate)
  have l2: "get_transformation_list frames s [] = Some (replicate (length s) ''D'')"
    by (simp add: get_transformation_list_unfold [OF u] transformation_list_with_table_def
        Let_def delete_loop_replicate)
  show ?thesis
    using edit_distance_from_empty [of s] l1 edit_distance_to_empty [of s] l2 by simp
qed

text \<open>
  C7, as stated: for every string \<open>s\<close> the distance from \<open>s\<close> to itself is 0 and the
  transformation list from \<open>s\<close> to itself is empty. The backtrace makes one nested call
  for each symbol of \<open>s\<close> and one more for the corner: on a string of a thousand symbols
  the call raises RecursionError, even with all the thousand frames of the default
  limit left.
\<close>

theorem long_identical_strings_raise:
  "get_transformation_list 1000 (replicate 1000 (CHR ''a'')) (replicate 1000 (CHR ''a'')) = None"
proof -
  define s where "s = replicate 1000 (CHR ''a'')"
  have "length s = 1000" by (simp add: s_def)
  then have "s \<noteq> []" "\<not> length s < 1000" by auto
  then have "get_transformation_list 1000 s s = None"
    by (simp add: get_transformation_list_same)
  then show ?thesis by (simp only: s_def)
qed

text \<open>
  C7, amended: for every string \<open>s\<close> the distance from \<open>s\<close> to itself is 0; the
  transformation list from \<open>s\<close> to itself is empty when \<open>s\<close> is empty or the recursion limit
  leaves room for \<open>len(s) + 1\<close> nested calls, and the call raises otherwise.
\<close>

theorem identical_strings_distance_and_list:
  "edit_distance s s = Some 0 \<and>
   get_transformation_list frames s s = (if s = [] \<or> length s < frames then Some [] else None)"
  using get_transformation_list_same [of frames s] by (simp add: edit_distance_def)

theorem identical_strings_distance_and_list_witness:
  "edit_distance ''abc'' ''abc'' = Some 0 \<and> get_transformation_list 4 ''abc'' ''abc'' = Some []"
  using identical_strings_distance_and_list [of "''abc''" 4] by simp




end
